theory Spec2Isabelle
  imports Main "HOL-Library.Word"
begin

section \<open>JavaScript strings\<close>

text \<open>
  A JavaScript string is a sequence of 16-bit code units; \<open>length\<close>, \<open>slice\<close>,
  \<open>lastIndexOf\<close>, \<open>split('')\<close> and a regular expression without the \<open>u\<close> flag all
  count and match code units.  \<open>js\<close> writes an ASCII literal as such a string.
\<close>

type_synonym code_unit = "16 word"
type_synonym jsstring = "code_unit list"

definition js :: "string \<Rightarrow> jsstring" where
  "js s = map of_char s"

text \<open>
  \<open>occurs_at pat s k\<close>: the string \<open>pat\<close> occurs in \<open>s\<close> at index \<open>k\<close>.
\<close>

definition occurs_at :: "jsstring \<Rightarrow> jsstring \<Rightarrow> nat \<Rightarrow> bool" where
  "occurs_at pat s k \<longleftrightarrow> k + length pat \<le> length s \<and> take (length pat) (drop k s) = pat"

text \<open>
  \<open>String.prototype.lastIndexOf(searchString)\<close> with no position argument: the search
  starts at \<open>length - searchString.length\<close> and walks down to index 0; the result is
  the first index at which \<open>searchString\<close> occurs, or \<open>-1\<close>.
\<close>

fun lastIndexOf_from :: "jsstring \<Rightarrow> jsstring \<Rightarrow> nat \<Rightarrow> int" where
  "lastIndexOf_from s pat 0 = (if take (length pat) s = pat then 0 else - 1)"
| "lastIndexOf_from s pat (Suc k) =
     (if take (length pat) (drop (Suc k) s) = pat then int (Suc k)
      else lastIndexOf_from s pat k)"

definition lastIndexOf :: "jsstring \<Rightarrow> jsstring \<Rightarrow> int" where
  "lastIndexOf s pat =
     (if length s < length pat then - 1
      else lastIndexOf_from s pat (length s - length pat))"

text \<open>
  \<open>String.prototype.slice(start, end)\<close>: a negative index counts from the end, and
  both indices are clamped to the string.  (The name \<open>slice\<close> is taken by the word
  library.)
\<close>

definition clamp_index :: "nat \<Rightarrow> int \<Rightarrow> nat" where
  "clamp_index len k = (if k < 0 then nat (max (int len + k) 0) else min (nat k) len)"

definition slice_js :: "jsstring \<Rightarrow> int \<Rightarrow> int \<Rightarrow> jsstring" where
  "slice_js s start end =
     (let from = clamp_index (length s) start;
          to = clamp_index (length s) end
      in take (to - from) (drop from s))"

text \<open>\<open>slice(start)\<close>: the end defaults to the length of the string.\<close>

definition slice_from :: "jsstring \<Rightarrow> int \<Rightarrow> jsstring" where
  "slice_from s start = slice_js s start (int (length s))"

text \<open>
  \<open>split('')\<close> gives the array of the string's code units, each a string of length one;
  the array is modelled as the list of these code units.
\<close>

definition split_units :: "jsstring \<Rightarrow> code_unit list" where
  "split_units s = s"

section \<open>Array keys and their conversion to numbers\<close>

text \<open>
  \<open>for (var i in digits)\<close> enumerates the keys of the array in ascending order; each
  key is a string, the decimal numeral of the index.  \<open>index_key\<close> is that numeral and
  \<open>string_to_number\<close> the value JavaScript gives a string of decimal digits where a
  number is wanted (in \<open>%\<close> and \<open><\<close>).  The program adds no enumerable property to
  arrays, so the index keys are the only keys.  An array index is below \<open>2^32\<close>, so the
  numbers met here are below \<open>2^53\<close> and exact as JavaScript numbers; they are
  modelled as natural numbers.
\<close>

definition digit_unit :: "nat \<Rightarrow> code_unit" where
  "digit_unit d = of_nat (48 + d)"

fun index_key :: "nat \<Rightarrow> jsstring" where
  "index_key n =
     (if n < 10 then [digit_unit n] else index_key (n div 10) @ [digit_unit (n mod 10)])"

declare index_key.simps [simp del]

definition string_to_number :: "jsstring \<Rightarrow> nat" where
  "string_to_number s = foldl (\<lambda>acc c. 10 * acc + (unat c - 48)) 0 s"

section \<open>String.prototype.currencyFormat\<close>

text \<open>
  The test of the loop body, for the key \<open>i\<close>.  \<open>i + 1\<close> has a string on its left,
  so it is the concatenation of the key with \<open>"1"\<close>, which \<open>%\<close> turns into a number;
  \<open>i < digitsLength - 1\<close> compares the key as a number.
\<close>

definition separator_test :: "jsstring \<Rightarrow> nat \<Rightarrow> bool" where
  "separator_test i digitsLength \<longleftrightarrow>
     string_to_number (i @ index_key 1) mod 3 = 0
     \<and> int (string_to_number i) < int digitsLength - 1"

text \<open>One pass of the loop body, for the key of index \<open>k\<close>.\<close>

definition loop_body :: "jsstring \<Rightarrow> code_unit list \<Rightarrow> nat \<Rightarrow> jsstring \<Rightarrow> nat \<Rightarrow> jsstring" where
  "loop_body groupSeparator digits digitsLength units k =
     (let i = index_key k;
          units1 = digits ! k # units
      in if separator_test i digitsLength then groupSeparator @ units1 else units1)"

text \<open>The \<open>for ... in\<close> loop: the keys of \<open>digits\<close> in ascending order, from \<open>units = ''\<close>.\<close>

definition format_loop :: "jsstring \<Rightarrow> code_unit list \<Rightarrow> nat \<Rightarrow> jsstring" where
  "format_loop groupSeparator digits digitsLength =
     foldl (loop_body groupSeparator digits digitsLength) [] [0 ..< length digits]"

definition currencyFormat :: "jsstring \<Rightarrow> jsstring \<Rightarrow> jsstring \<Rightarrow> jsstring \<Rightarrow> jsstring" where
  "currencyFormat this symbol groupSeparator decimalSeparator =
     (if groupSeparator \<noteq> [] then
        let decimalPosition = lastIndexOf this decimalSeparator;
            decimals = (if decimalPosition > - 1 then slice_from this decimalPosition else []);
            digits = (if decimalPosition > - 1
                      then rev (split_units (slice_js this 0 decimalPosition))
                      else rev (split_units this));
            digitsLength = length digits;
            units = format_loop groupSeparator digits digitsLength
        in symbol @ units @ decimals
      else symbol @ this)"

text \<open>
  The two parts the function splits its input into: \<open>decimals\<close>, and \<open>digits\<close> before it
  is reversed.
\<close>

definition fractional_part :: "jsstring \<Rightarrow> jsstring \<Rightarrow> jsstring" where
  "fractional_part this decimalSeparator =
     (let decimalPosition = lastIndexOf this decimalSeparator
      in if decimalPosition > - 1 then slice_from this decimalPosition else [])"

definition integer_part :: "jsstring \<Rightarrow> jsstring \<Rightarrow> jsstring" where
  "integer_part this decimalSeparator =
     (let decimalPosition = lastIndexOf this decimalSeparator
      in if decimalPosition > - 1 then slice_js this 0 decimalPosition else this)"

text \<open>The number of passes of the loop in which the test holds and a separator is added.\<close>

definition separators_inserted :: "jsstring \<Rightarrow> jsstring \<Rightarrow> nat" where
  "separators_inserted this decimalSeparator =
     (let digitsLength = length (integer_part this decimalSeparator)
      in length (filter (\<lambda>k. separator_test (index_key k) digitsLength) [0 ..< digitsLength]))"

section \<open>Grouping, described by positions\<close>

text \<open>
  \<open>weave sep s ps\<close> is \<open>s\<close> with a copy of \<open>sep\<close> put in front of the character at each
  index listed in \<open>ps\<close>.  \<open>separator_positions len\<close> lists the indices of a string of
  length \<open>len\<close> that are not the first and have a multiple of three characters from
  there to the end.  \<open>grouped\<close> puts the separator at these positions.
\<close>

definition weave :: "jsstring \<Rightarrow> jsstring \<Rightarrow> nat list \<Rightarrow> jsstring" where
  "weave sep s ps =
     concat (map (\<lambda>p. (if p \<in> set ps then sep else []) @ [s ! p]) [0 ..< length s])"

definition separator_positions :: "nat \<Rightarrow> nat list" where
  "separator_positions len = filter (\<lambda>p. (len - p) mod 3 = 0) [1 ..< len]"

definition grouped :: "jsstring \<Rightarrow> jsstring \<Rightarrow> jsstring" where
  "grouped sep s = weave sep s (separator_positions (length s))"

text \<open>\<open>chunks3\<close> cuts a string into pieces of three characters, from the left.\<close>

fun chunks3 :: "jsstring \<Rightarrow> jsstring list" where
  "chunks3 s = (if length s < 3 then [] else take 3 s # chunks3 (drop 3 s))"

declare chunks3.simps [simp del]

text \<open>The size of the leading group of an integer part of length \<open>len\<close>.\<close>

definition lead_size :: "nat \<Rightarrow> nat" where
  "lead_size len = (len - 1) mod 3 + 1"

section \<open>String.prototype.currencyUnformat\<close>

text \<open>
  The patterns the function is used with here have the shape \<open>/[^...]+/g\<close>: a negated
  character class, repeated greedily, replaced everywhere.  A class is a list of items,
  \<open>\d\<close> or a literal code unit.  The default pattern is \<open>/[^\d|^\.]+/g\<close>, whose class
  lists \<open>\d\<close>, \<open>|\<close>, \<open>^\<close> and \<open>.\<close>.
\<close>

definition is_ascii_digit :: "code_unit \<Rightarrow> bool" where
  "is_ascii_digit c \<longleftrightarrow> 48 \<le> unat c \<and> unat c \<le> 57"

definition is_period :: "code_unit \<Rightarrow> bool" where
  "is_period c \<longleftrightarrow> c = 46"

datatype class_item = Digit | Literal code_unit

datatype regex = NegatedClassPlusGlobal "class_item list"

fun item_matches :: "class_item \<Rightarrow> code_unit \<Rightarrow> bool" where
  "item_matches Digit c \<longleftrightarrow> is_ascii_digit c"
| "item_matches (Literal d) c \<longleftrightarrow> c = d"

fun class_matches :: "regex \<Rightarrow> code_unit \<Rightarrow> bool" where
  "class_matches (NegatedClassPlusGlobal items) c \<longleftrightarrow> \<not> list_ex (\<lambda>it. item_matches it c) items"

definition default_pattern :: regex where
  "default_pattern = NegatedClassPlusGlobal [Digit, Literal 124, Literal 94, Literal 46]"

text \<open>
  \<open>replace(pattern, replacement)\<close> for such a pattern: scanning from the left, every
  maximal run of code units the class matches is replaced by \<open>replacement\<close>, every
  other code unit is kept.
\<close>

function replace :: "jsstring \<Rightarrow> regex \<Rightarrow> jsstring \<Rightarrow> jsstring" where
  "replace [] pattern replacement = []"
| "replace (c # cs) pattern replacement =
     (if class_matches pattern c
      then replacement @ replace (dropWhile (class_matches pattern) cs) pattern replacement
      else c # replace cs pattern replacement)"
  by pat_completeness auto

termination replace
  by (relation "measure (\<lambda>(s, _, _). length s)")
     (auto simp: length_dropWhile_le less_Suc_eq_le)

definition currencyUnformat :: "jsstring \<Rightarrow> regex option \<Rightarrow> jsstring" where
  "currencyUnformat this regex =
     (let pattern = (case regex of Some r \<Rightarrow> r | None \<Rightarrow> default_pattern)
      in replace this pattern [])"

text \<open>
  The code units the default pattern leaves in place: those its class lists.
\<close>

definition kept :: "code_unit \<Rightarrow> bool" where
  "kept c \<longleftrightarrow> is_ascii_digit c \<or> c = 124 \<or> c = 94 \<or> c = 46"

section \<open>Keys, the loop test and the loop\<close>

lemma unat_digit_unit: "d < 10 \<Longrightarrow> unat (digit_unit d) = 48 + d"
proof -
  assume d: "d < 10"
  have "unat (of_nat (48 + d) :: code_unit) = (48 + d) mod 2 ^ LENGTH(16)"
    by (rule unat_of_nat)
  with d show ?thesis
    by (simp add: digit_unit_def)
qed

lemma string_to_number_snoc:
  "string_to_number (s @ [c]) = 10 * string_to_number s + (unat c - 48)"
  by (simp add: string_to_number_def)

lemma string_to_number_index_key: "string_to_number (index_key n) = n"
proof (induction n rule: index_key.induct)
  case (1 n)
  show ?case
  proof (cases "n < 10")
    case True
    then show ?thesis
      by (simp add: index_key.simps [of n] string_to_number_def unat_digit_unit)
  next
    case False
    then have "string_to_number (index_key n) = 10 * (n div 10) + n mod 10"
      using 1 by (simp add: index_key.simps [of n] string_to_number_snoc unat_digit_unit)
    then show ?thesis by simp
  qed
qed

lemma index_key_1: "index_key 1 = [digit_unit 1]"
  by (subst index_key.simps) simp

lemma separator_test_index_key:
  "separator_test (index_key k) n \<longleftrightarrow> (k + 1) mod 3 = 0 \<and> k + 1 < n"
proof -
  have "unat (digit_unit 1) - 48 = 1"
    using unat_digit_unit [of 1] by simp
  then have "string_to_number (index_key k @ index_key 1) = 10 * k + 1"
    unfolding index_key_1 string_to_number_snoc string_to_number_index_key by simp
  moreover have "(10 * k + 1) mod 3 = 0 \<longleftrightarrow> (k + 1) mod 3 = 0"
    by presburger
  moreover have "int k < int n - 1 \<longleftrightarrow> k + 1 < n"
    by linarith
  ultimately show ?thesis
    by (simp add: separator_test_def string_to_number_index_key)
qed

lemma loop_body_eq:
  "loop_body gs digits n units k =
     (if (k + 1) mod 3 = 0 \<and> k + 1 < n then gs else []) @ digits ! k # units"
  by (simp add: loop_body_def Let_def separator_test_index_key)

lemma mem_separator_positions:
  "p \<in> set (separator_positions len) \<longleftrightarrow> 0 < p \<and> p < len \<and> (len - p) mod 3 = 0"
  by (auto simp: separator_positions_def)

lemma loop_prefix:
  "m \<le> length s \<Longrightarrow>
   foldl (loop_body gs (rev s) (length s)) [] [0 ..< m] =
   concat (map (\<lambda>p. (if p \<in> set (separator_positions (length s)) then gs else []) @ [s ! p])
             [length s - m ..< length s])"
proof (induction m)
  case 0
  show ?case by simp
next
  case (Suc m)
  let ?n = "length s"
  from Suc.prems have m: "m < ?n" by simp
  then have upt: "[?n - Suc m ..< ?n] = (?n - Suc m) # [?n - m ..< ?n]"
    by (simp add: upt_conv_Cons Suc_diff_Suc)
  have nth: "rev s ! m = s ! (?n - Suc m)"
    using m by (simp add: rev_nth)
  have cond: "(m + 1) mod 3 = 0 \<and> m + 1 < ?n \<longleftrightarrow> ?n - Suc m \<in> set (separator_positions ?n)"
    using m by (auto simp: mem_separator_positions)
  show ?case
    using Suc.IH m cond by (simp add: upt loop_body_eq nth)
qed

lemma format_loop_grouped: "format_loop gs (rev s) (length s) = grouped gs s"
  using loop_prefix [of "length s" s gs] by (simp add: format_loop_def grouped_def weave_def)


lemma lastIndexOf_from_cases:
  "(lastIndexOf_from s pat k = - 1 \<and> (\<forall>j\<le>k. take (length pat) (drop j s) \<noteq> pat))
   \<or> (\<exists>p\<le>k. lastIndexOf_from s pat k = int p \<and> take (length pat) (drop p s) = pat
         \<and> (\<forall>j. p < j \<and> j \<le> k \<longrightarrow> take (length pat) (drop j s) \<noteq> pat))"
proof (induction k)
  case 0
  show ?case by auto
next
  case (Suc k)
  show ?case
  proof (cases "take (length pat) (drop (Suc k) s) = pat")
    case True
    then show ?thesis by auto
  next
    case False
    from Suc.IH show ?thesis
    proof
      assume "lastIndexOf_from s pat k = - 1 \<and> (\<forall>j\<le>k. take (length pat) (drop j s) \<noteq> pat)"
      with False show ?thesis by (auto simp: le_Suc_eq)
    next
      assume "\<exists>p\<le>k. lastIndexOf_from s pat k = int p \<and> take (length pat) (drop p s) = pat
         \<and> (\<forall>j. p < j \<and> j \<le> k \<longrightarrow> take (length pat) (drop j s) \<noteq> pat)"
      then obtain p where p: "p \<le> k" "lastIndexOf_from s pat k = int p"
        "take (length pat) (drop p s) = pat"
        "\<forall>j. p < j \<and> j \<le> k \<longrightarrow> take (length pat) (drop j s) \<noteq> pat"
        by blast
      have "\<forall>j. p < j \<and> j \<le> Suc k \<longrightarrow> take (length pat) (drop j s) \<noteq> pat"
        using p(4) False by (auto simp: le_Suc_eq)
      with p False show ?thesis by auto
    qed
  qed
qed

lemma occurs_at_iff:
  "occurs_at pat s k \<longleftrightarrow>
     length pat \<le> length s \<and> k \<le> length s - length pat \<and> take (length pat) (drop k s) = pat"
proof (cases "take (length pat) (drop k s) = pat")
  case True
  then have "length (take (length pat) (drop k s)) = length pat"
    by simp
  then have "length pat = min (length pat) (length s - k)"
    by simp
  then show ?thesis using True by (auto simp: occurs_at_def)
next
  case False
  then show ?thesis by (simp add: occurs_at_def)
qed

lemma lastIndexOf_absent:
  "lastIndexOf s pat = - 1 \<longleftrightarrow> (\<forall>k. \<not> occurs_at pat s k)"
proof (cases "length s < length pat")
  case True
  then show ?thesis by (auto simp: lastIndexOf_def occurs_at_def)
next
  case False
  then have eq: "lastIndexOf s pat = lastIndexOf_from s pat (length s - length pat)"
    by (simp add: lastIndexOf_def)
  from lastIndexOf_from_cases [of s pat "length s - length pat"] show ?thesis
  proof
    assume "lastIndexOf_from s pat (length s - length pat) = - 1
      \<and> (\<forall>j\<le>length s - length pat. take (length pat) (drop j s) \<noteq> pat)"
    then show ?thesis using eq by (auto simp: occurs_at_iff)
  next
    assume "\<exists>p\<le>length s - length pat. lastIndexOf_from s pat (length s - length pat) = int p
      \<and> take (length pat) (drop p s) = pat
      \<and> (\<forall>j. p < j \<and> j \<le> length s - length pat \<longrightarrow> take (length pat) (drop j s) \<noteq> pat)"
    then obtain p where p: "p \<le> length s - length pat" "lastIndexOf s pat = int p"
      "take (length pat) (drop p s) = pat"
      using eq by auto
    then have "occurs_at pat s p" using False by (simp add: occurs_at_iff)
    with p(2) show ?thesis by auto
  qed
qed

lemma lastIndexOf_present:
  assumes "occurs_at pat s k"
  shows "\<exists>p. lastIndexOf s pat = int p \<and> p \<le> length s \<and> occurs_at pat s p
           \<and> (\<forall>j. occurs_at pat s j \<longrightarrow> j \<le> p)"
proof -
  from assms have len: "length pat \<le> length s"
    by (simp add: occurs_at_def)
  then have eq: "lastIndexOf s pat = lastIndexOf_from s pat (length s - length pat)"
    by (simp add: lastIndexOf_def)
  from lastIndexOf_from_cases [of s pat "length s - length pat"] show ?thesis
  proof
    assume "lastIndexOf_from s pat (length s - length pat) = - 1
      \<and> (\<forall>j\<le>length s - length pat. take (length pat) (drop j s) \<noteq> pat)"
    with assms show ?thesis by (auto simp: occurs_at_iff)
  next
    assume "\<exists>p\<le>length s - length pat. lastIndexOf_from s pat (length s - length pat) = int p
      \<and> take (length pat) (drop p s) = pat
      \<and> (\<forall>j. p < j \<and> j \<le> length s - length pat \<longrightarrow> take (length pat) (drop j s) \<noteq> pat)"
    then obtain p where p: "p \<le> length s - length pat" "lastIndexOf s pat = int p"
      "take (length pat) (drop p s) = pat"
      "\<forall>j. p < j \<and> j \<le> length s - length pat \<longrightarrow> take (length pat) (drop j s) \<noteq> pat"
      using eq by auto
    have occ: "occurs_at pat s p" using p(1,3) len by (simp add: occurs_at_iff)
    have "j \<le> p" if "occurs_at pat s j" for j
    proof (rule ccontr)
      assume "\<not> j \<le> p"
      with that p(4) show False by (auto simp: occurs_at_iff)
    qed
    with p(1,2) occ show ?thesis by auto
  qed
qed

lemma lastIndexOf_empty: "lastIndexOf s [] = int (length s)"
proof -
  have "occurs_at [] s (length s)" by (simp add: occurs_at_def)
  from lastIndexOf_present [OF this] obtain p where
    p: "lastIndexOf s [] = int p" "p \<le> length s" "\<forall>j. occurs_at [] s j \<longrightarrow> j \<le> p"
    by blast
  from p(3) \<open>occurs_at [] s (length s)\<close> have "length s \<le> p" by blast
  with p(1,2) show ?thesis by simp
qed

lemma slice_prefix: "p \<le> length s \<Longrightarrow> slice_js s 0 (int p) = take p s"
  by (simp add: slice_js_def clamp_index_def)

lemma slice_from_suffix: "p \<le> length s \<Longrightarrow> slice_from s (int p) = drop p s"
  by (simp add: slice_from_def slice_js_def clamp_index_def)

lemma parts_absent:
  "\<forall>k. \<not> occurs_at ds s k \<Longrightarrow> integer_part s ds = s \<and> fractional_part s ds = []"
  using lastIndexOf_absent [of s ds] by (simp add: integer_part_def fractional_part_def)

lemma parts_present:
  assumes "lastIndexOf s ds = int p" and "p \<le> length s"
  shows "integer_part s ds = take p s \<and> fractional_part s ds = drop p s"
  using assms by (simp add: integer_part_def fractional_part_def slice_prefix slice_from_suffix)

lemma lastIndexOf_range: "lastIndexOf s ds = - 1 \<or> (\<exists>p\<le>length s. lastIndexOf s ds = int p)"
proof (cases "\<forall>k. \<not> occurs_at ds s k")
  case True
  then show ?thesis by (simp add: lastIndexOf_absent)
next
  case False
  then obtain k where "occurs_at ds s k" by blast
  from lastIndexOf_present [OF this] show ?thesis by blast
qed

lemma parts_append: "integer_part s ds @ fractional_part s ds = s"
  using lastIndexOf_range [of s ds]
  by (auto simp: integer_part_def fractional_part_def slice_prefix slice_from_suffix)

lemma currencyFormat_parts:
  "gs \<noteq> [] \<Longrightarrow>
   currencyFormat s symbol gs ds = symbol @ grouped gs (integer_part s ds) @ fractional_part s ds"
  by (simp add: currencyFormat_def integer_part_def fractional_part_def Let_def split_units_def
        format_loop_grouped)


lemma weave_no_positions:
  assumes "\<forall>p<length s. p \<notin> set ps"
  shows "weave sep s ps = s"
proof -
  have "map (\<lambda>p. (if p \<in> set ps then sep else []) @ [s ! p]) [0 ..< length s]
        = map (\<lambda>p. [s ! p]) [0 ..< length s]"
    using assms by (intro map_cong refl) simp
  then have "weave sep s ps = concat (map (\<lambda>p. [s ! p]) [0 ..< length s])"
    by (simp only: weave_def)
  also have "\<dots> = map ((!) s) [0 ..< length s]"
    by (rule concat_map_singleton)
  also have "\<dots> = s"
    by (rule map_nth)
  finally show ?thesis .
qed

lemma grouped_short:
  assumes "length s \<le> 3"
  shows "grouped sep s = s"
proof -
  have "p \<notin> set (separator_positions (length s))" if "p < length s" for p
  proof -
    have "\<not> (0 < p \<and> (length s - p) mod 3 = 0)"
      using assms that by presburger
    then show ?thesis
      by (simp add: mem_separator_positions)
  qed
  then show ?thesis
    unfolding grouped_def by (intro weave_no_positions) blast
qed

lemma grouped_snoc_group:
  assumes "xs \<noteq> []" and "length ys = 3"
  shows "grouped sep (xs @ ys) = grouped sep xs @ sep @ ys"
proof -
  let ?n = "length xs"
  let ?f = "\<lambda>p. (if p \<in> set (separator_positions (?n + 3)) then sep else []) @ [(xs @ ys) ! p]"
  let ?g = "\<lambda>p. (if p \<in> set (separator_positions ?n) then sep else []) @ [xs ! p]"
  from assms(2) obtain a b c where ys: "ys = [a, b, c]"
    by (cases ys; cases "tl ys"; cases "tl (tl ys)") auto
  have n: "0 < ?n" using assms(1) by simp
  have upt: "[0 ..< ?n + 3] = [0 ..< ?n] @ [?n, ?n + 1, ?n + 2]"
    by (simp add: numeral_3_eq_3)
  have low: "map ?f [0 ..< ?n] = map ?g [0 ..< ?n]"
  proof (intro map_cong refl)
    fix p assume "p \<in> set [0 ..< ?n]"
    then have p: "p < ?n" by simp
    then have e: "?n + 3 - p = (?n - p) + 3"
      by simp
    have "(?n + 3 - p) mod 3 = (?n - p) mod 3"
      unfolding e by (rule mod_add_self2)
    with p have "p \<in> set (separator_positions (?n + 3)) \<longleftrightarrow> p \<in> set (separator_positions ?n)"
      by (simp add: mem_separator_positions)
    with p show "?f p = ?g p" by (simp add: nth_append)
  qed
  have hi: "?f ?n = sep @ [a]" "?f (?n + 1) = [b]" "?f (?n + 2) = [c]"
    using n by (simp_all add: mem_separator_positions ys nth_append)
  have "grouped sep (xs @ ys) = concat (map ?f [0 ..< ?n + 3])"
    using assms(2) by (simp add: grouped_def weave_def)
  also have "\<dots> = concat (map ?g [0 ..< ?n]) @ ?f ?n @ ?f (?n + 1) @ ?f (?n + 2)"
    unfolding upt by (simp add: low)
  also have "\<dots> = grouped sep xs @ sep @ ys"
    unfolding hi by (simp add: grouped_def weave_def ys)
  finally show ?thesis .
qed

lemma grouped_groups:
  assumes "lead \<noteq> []" and "length lead \<le> 3" and "\<forall>g\<in>set groups. length g = 3"
  shows "grouped sep (lead @ concat groups) = lead @ concat (map ((@) sep) groups)"
  using assms(3)
proof (induction groups rule: rev_induct)
  case Nil
  show ?case using assms(2) by (simp add: grouped_short)
next
  case (snoc g groups)
  then have g: "length g = 3" and IH: "grouped sep (lead @ concat groups) = lead @ concat (map ((@) sep) groups)"
    by simp_all
  have "grouped sep ((lead @ concat groups) @ g) = grouped sep (lead @ concat groups) @ sep @ g"
    using assms(1) g by (intro grouped_snoc_group) simp_all
  then show ?case by (simp add: IH)
qed

lemma chunks3_length_each: "\<forall>g\<in>set (chunks3 s). length g = 3"
proof (induction s rule: chunks3.induct)
  case (1 s)
  show ?case
  proof (cases "length s < 3")
    case True
    then have "chunks3 s = []" by (subst chunks3.simps) simp
    then show ?thesis by simp
  next
    case False
    then have eq: "chunks3 s = take 3 s # chunks3 (drop 3 s)"
      by (subst chunks3.simps) simp
    have IH: "\<forall>g\<in>set (chunks3 (drop 3 s)). length g = 3"
      using 1 False by blast
    have "length (take 3 s) = 3"
      using False by simp
    with IH show ?thesis
      unfolding eq by simp
  qed
qed

lemma chunks3_count: "length (chunks3 s) = length s div 3"
proof (induction s rule: chunks3.induct)
  case (1 s)
  show ?case
  proof (cases "length s < 3")
    case True
    then show ?thesis by (subst chunks3.simps) simp
  next
    case False
    then have "length (chunks3 s) = Suc ((length s - 3) div 3)"
      using 1 by (subst chunks3.simps) simp
    with False show ?thesis by presburger
  qed
qed

lemma chunks3_concat: "length s mod 3 = 0 \<Longrightarrow> concat (chunks3 s) = s"
proof (induction s rule: chunks3.induct)
  case (1 s)
  show ?case
  proof (cases "length s < 3")
    case True
    with 1(2) have "s = []" by auto
    then show ?thesis by (subst chunks3.simps) simp
  next
    case False
    then have "(length s - 3) mod 3 = 0" using 1(2) by presburger
    then have "concat (chunks3 (drop 3 s)) = drop 3 s"
      using 1(1) False by simp
    then show ?thesis using False by (subst chunks3.simps) simp
  qed
qed

lemma lead_size_bounds: "1 \<le> lead_size len \<and> lead_size len \<le> 3"
  using mod_less_divisor [of 3 "len - 1"] unfolding lead_size_def by linarith

lemma lead_size_rest: "len - lead_size len = 3 * ((len - 1) div 3)"
proof -
  have "len - lead_size len = (len - 1) - (len - 1) mod 3"
    by (simp add: lead_size_def)
  also have "\<dots> = 3 * ((len - 1) div 3)"
    by (simp add: minus_mod_eq_mult_div)
  finally show ?thesis .
qed

lemma count_multiples: "length (filter (\<lambda>k. (k + 1) mod 3 = 0) [0 ..< m]) = m div 3"
proof (induction m)
  case 0
  show ?case by simp
next
  case (Suc m)
  have "Suc m div 3 = m div 3 + (if (m + 1) mod 3 = 0 then 1 else 0)"
    by presburger
  with Suc show ?case by simp
qed

lemma separators_inserted_eq: "separators_inserted s ds = (length (integer_part s ds) - 1) div 3"
proof -
  let ?n = "length (integer_part s ds)"
  have "filter (\<lambda>k. (k + 1) mod 3 = 0 \<and> k + 1 < ?n) [0 ..< ?n]
        = filter (\<lambda>k. (k + 1) mod 3 = 0) [0 ..< ?n - 1]"
  proof (cases ?n)
    case 0
    then show ?thesis by simp
  next
    case (Suc m)
    have "filter (\<lambda>k. (k + 1) mod 3 = 0 \<and> k + 1 < Suc m) [0 ..< m]
          = filter (\<lambda>k. (k + 1) mod 3 = 0) [0 ..< m]"
      by (intro filter_cong) auto
    then show ?thesis by (simp add: Suc)
  qed
  then show ?thesis
    unfolding separators_inserted_def Let_def separator_test_index_key
    by (simp only: count_multiples)
qed

section \<open>The default pattern as a filter\<close>

lemma filter_dropWhile_not: "filter (\<lambda>c. \<not> P c) (dropWhile P cs) = filter (\<lambda>c. \<not> P c) cs"
  by (induction cs) simp_all

lemma replace_empty_filter:
  "replace s pattern [] = filter (\<lambda>c. \<not> class_matches pattern c) s"
proof (induction s pattern "[] :: jsstring" rule: replace.induct)
  case (1 pattern)
  show ?case by simp
next
  case (2 c cs pattern)
  then show ?case by (simp add: filter_dropWhile_not)
qed

lemma default_class: "class_matches default_pattern c \<longleftrightarrow> \<not> kept c"
  by (simp add: default_pattern_def kept_def)

lemma currencyUnformat_default: "currencyUnformat s None = filter kept s"
  by (simp add: currencyUnformat_def replace_empty_filter default_class)

lemma filter_weave:
  assumes "filter P sep = []"
  shows "filter P (weave sep s ps) = filter P s"
proof -
  have whole: "concat (map (\<lambda>p. [s ! p]) [0 ..< length s]) = s"
    by (simp only: concat_map_singleton map_nth)
  have piece: "filter P ((if b then sep else []) @ [x]) = filter P [x]" for b x
    using assms by (cases b) simp_all
  have "filter P (weave sep s ps) = concat (map (\<lambda>p. filter P [s ! p]) [0 ..< length s])"
    unfolding weave_def filter_concat map_map comp_def piece ..
  also have "\<dots> = filter P (concat (map (\<lambda>p. [s ! p]) [0 ..< length s]))"
    unfolding filter_concat map_map comp_def ..
  finally show ?thesis
    unfolding whole .
qed

lemma kept_dollar_space_comma: "filter kept (js ''$ '') = []" "filter kept (js '','') = []"
  by (simp_all add: js_def kept_def is_ascii_digit_def)

lemma grouped_empty: "grouped sep [] = []"
  by (simp add: grouped_def weave_def)

lemma js_comma_nonempty: "js '','' \<noteq> []"
  by (simp add: js_def)

section \<open>The claims\<close>

subsection \<open>C1: number and place of the group separators\<close>

text \<open>
  C1 as stated gives \<open>floor((len - 1) / 3)\<close> separators for every input.  For an empty
  integer part, \<open>len = 0\<close>, that is \<open>floor(-1/3) = -1\<close>, while the loop runs no pass
  and adds no separator: the output for the empty input is the symbol alone.
\<close>

theorem C1_empty_integer_part_counterexample:
  "currencyFormat (js '''') (js ''$'') (js '','') (js ''.'') = js ''$''
   \<and> int (separators_inserted (js '''') (js ''.'')) = 0
   \<and> (int (length (integer_part (js '''') (js ''.''))) - 1) div 3 = - 1
   \<and> int (separators_inserted (js '''') (js ''.''))
       \<noteq> (int (length (integer_part (js '''') (js ''.''))) - 1) div 3"
  by code_simp

text \<open>
  C1 (amended).  For every input and non-empty group separator, with \<open>ip\<close> the integer
  part and \<open>len\<close> its length: the output is the symbol, then a leading group \<open>lead\<close>, then
  each further group of \<open>ip\<close> with one separator in front of it, then the fractional part.
  The further groups have exactly three characters each and with \<open>lead\<close> in front make up
  \<open>ip\<close>, so every separator stands a multiple of three characters from the right end of the
  integer part.  \<open>lead\<close> has at most three characters, and at least one when \<open>ip\<close> is not
  empty, so no separator stands before the leftmost character.  The number of separators
  added is the number of further groups; it is \<open>floor((len - 1) / 3)\<close> when \<open>len \<ge> 1\<close> and
  0 when \<open>len = 0\<close>.
\<close>

theorem C1_grouping:
  assumes "groupSeparator \<noteq> []"
  shows
    "let ip = integer_part this decimalSeparator;
         len = length ip;
         lead = take (lead_size len) ip;
         groups = chunks3 (drop (lead_size len) ip)
     in currencyFormat this symbol groupSeparator decimalSeparator
          = symbol @ lead @ concat (map ((@) groupSeparator) groups)
              @ fractional_part this decimalSeparator
        \<and> lead @ concat groups = ip
        \<and> (\<forall>g\<in>set groups. length g = 3)
        \<and> length lead \<le> 3
        \<and> separators_inserted this decimalSeparator = length groups
        \<and> (1 \<le> len \<longrightarrow> 1 \<le> length lead \<and> int (length groups) = (int len - 1) div 3)
        \<and> (len = 0 \<longrightarrow> length groups = 0)"
proof -
  define ip where "ip = integer_part this decimalSeparator"
  define len where "len = length ip"
  define lead where "lead = take (lead_size len) ip"
  define groups where "groups = chunks3 (drop (lead_size len) ip)"
  have rest_len: "length (drop (lead_size len) ip) = 3 * ((len - 1) div 3)"
    by (simp add: len_def lead_size_rest)
  have each: "\<forall>g\<in>set groups. length g = 3"
    unfolding groups_def by (rule chunks3_length_each)
  have cat: "concat groups = drop (lead_size len) ip"
    unfolding groups_def by (rule chunks3_concat) (simp only: rest_len mod_mult_self1_is_0)
  have whole: "lead @ concat groups = ip"
    by (simp add: cat lead_def)
  have count: "length groups = (len - 1) div 3"
    unfolding groups_def chunks3_count rest_len by simp
  have lead_le: "length lead \<le> 3"
    using lead_size_bounds [of len] by (simp add: lead_def min_def)
  have lead_ge: "1 \<le> length lead" if "1 \<le> len"
    using lead_size_bounds [of len] that by (simp add: lead_def len_def min_def)
  have floor: "int (length groups) = (int len - 1) div 3" if "1 \<le> len"
  proof -
    from that have "int (len - 1) = int len - 1" by simp
    then show ?thesis by (simp add: count zdiv_int)
  qed
  have shape: "grouped groupSeparator ip = lead @ concat (map ((@) groupSeparator) groups)"
  proof (cases "ip = []")
    case True
    then show ?thesis
      by (simp add: grouped_empty lead_def groups_def chunks3.simps [of "[]"])
  next
    case False
    then have "1 \<le> len"
      by (cases ip) (simp_all add: len_def)
    from lead_ge [OF this] have "lead \<noteq> []"
      by auto
    from grouped_groups [OF this lead_le each, of groupSeparator] show ?thesis
      by (simp add: whole)
  qed
  have out: "currencyFormat this symbol groupSeparator decimalSeparator
          = symbol @ lead @ concat (map ((@) groupSeparator) groups)
              @ fractional_part this decimalSeparator"
    using currencyFormat_parts [OF assms, of this symbol decimalSeparator]
    by (simp add: shape flip: ip_def)
  have ins: "separators_inserted this decimalSeparator = length groups"
    by (simp add: separators_inserted_eq count len_def ip_def)
  have zero: "length groups = 0" if "len = 0"
    using that by (simp add: count)
  show ?thesis
    unfolding Let_def
    using out whole each lead_le ins lead_ge floor zero
    unfolding ip_def [symmetric] len_def [symmetric] lead_def [symmetric] groups_def [symmetric]
    by blast
qed

theorem C1_grouping_witness:
  "js '','' \<noteq> []
   \<and> currencyFormat (js ''1234567.89'') (js ''$'') (js '','') (js ''.'') = js ''$1,234,567.89''
   \<and> separators_inserted (js ''1234567.89'') (js ''.'') = 2
   \<and> (1::nat) \<le> length (integer_part (js ''1234567.89'') (js ''.''))
   \<and> length (integer_part (js ''.5'') (js ''.'')) = 0
   \<and> currencyFormat (js ''.5'') (js ''$'') (js '','') (js ''.'') = js ''$.5''
   \<and> separators_inserted (js ''.5'') (js ''.'') = 0"
proof -
  have ip: "integer_part (js ''1234567.89'') (js ''.'') = js ''1234567''"
    by code_simp
  have fp: "fractional_part (js ''1234567.89'') (js ''.'') = js ''.89''"
    by code_simp
  have len: "length (js ''1234567'') = 7"
    by (simp add: js_def)
  have lead: "take (lead_size 7) (js ''1234567'') = js ''1''"
    by code_simp
  have groups: "chunks3 (drop (lead_size 7) (js ''1234567'')) = [js ''234'', js ''567'']"
    by code_simp
  have ip0: "integer_part (js ''.5'') (js ''.'') = []"
    by code_simp
  have fp0: "fractional_part (js ''.5'') (js ''.'') = js ''.5''"
    by code_simp
  have groups0: "chunks3 (drop (lead_size 0) []) = []"
    by code_simp
  have a: "currencyFormat (js ''1234567.89'') (js ''$'') (js '','') (js ''.'')
             = js ''$'' @ js ''1'' @ concat (map ((@) (js '','')) [js ''234'', js ''567''])
                 @ js ''.89''
           \<and> separators_inserted (js ''1234567.89'') (js ''.'') = length [js ''234'', js ''567'']"
    using C1_grouping [OF js_comma_nonempty, of "js ''1234567.89''" "js ''.''" "js ''$''"]
    unfolding Let_def ip fp len lead groups by blast
  have b: "currencyFormat (js ''.5'') (js ''$'') (js '','') (js ''.'')
             = js ''$'' @ take (lead_size 0) [] @ concat (map ((@) (js '','')) []) @ js ''.5''
           \<and> separators_inserted (js ''.5'') (js ''.'') = length ([] :: jsstring list)"
    using C1_grouping [OF js_comma_nonempty, of "js ''.5''" "js ''.''" "js ''$''"]
    unfolding Let_def ip0 fp0 list.size groups0 by blast
  have c: "(1::nat) \<le> length (integer_part (js ''1234567.89'') (js ''.''))"
    unfolding ip by (simp add: js_def)
  have d: "length (integer_part (js ''.5'') (js ''.'')) = 0"
    unfolding ip0 by simp
  show ?thesis
    using a b c d by (simp add: js_def)
qed

subsection \<open>C2: the fractional part passes through\<close>

text \<open>
  C2.  For every input in which the decimal separator occurs (decimal separator and
  group separator non-empty), \<open>lastIndexOf\<close> gives the index \<open>p\<close> of its last occurrence,
  and the output is the symbol, the grouped integer part (the input before \<open>p\<close>), and then
  the input from \<open>p\<close> to its end, character for character.
\<close>

theorem C2_fraction_verbatim:
  assumes "groupSeparator \<noteq> []" and "decimalSeparator \<noteq> []"
    and "occurs_at decimalSeparator this k"
  shows
    "let p = nat (lastIndexOf this decimalSeparator)
     in occurs_at decimalSeparator this p
        \<and> (\<forall>j. occurs_at decimalSeparator this j \<longrightarrow> j \<le> p)
        \<and> fractional_part this decimalSeparator = drop p this
        \<and> currencyFormat this symbol groupSeparator decimalSeparator
            = symbol @ grouped groupSeparator (take p this) @ drop p this"
proof -
  from lastIndexOf_present [OF assms(3)] obtain p where
    p: "lastIndexOf this decimalSeparator = int p" "p \<le> length this"
      "occurs_at decimalSeparator this p"
      "\<forall>j. occurs_at decimalSeparator this j \<longrightarrow> j \<le> p"
    by blast
  from parts_present [OF p(1,2)] have
    parts: "integer_part this decimalSeparator = take p this"
           "fractional_part this decimalSeparator = drop p this"
    by simp_all
  show ?thesis
    using p(3,4) by (simp add: Let_def p(1) parts currencyFormat_parts [OF assms(1)])
qed

theorem C2_fraction_verbatim_witness:
  "js '','' \<noteq> [] \<and> js ''.'' \<noteq> [] \<and> occurs_at (js ''.'') (js ''1234.5.6'') 4
   \<and> nat (lastIndexOf (js ''1234.5.6'') (js ''.'')) = 6
   \<and> drop 6 (js ''1234.5.6'') = js ''.6''
   \<and> currencyFormat (js ''1234.5.6'') (js ''$ '') (js '','') (js ''.'')
       = js ''$ '' @ grouped (js '','') (js ''1234.5'') @ js ''.6''
   \<and> currencyFormat (js ''1234.5.6'') (js ''$ '') (js '','') (js ''.'') = js ''$ 123,4.5.6''"
proof -
  have dot: "js ''.'' \<noteq> []"
    by (simp add: js_def)
  have occ: "occurs_at (js ''.'') (js ''1234.5.6'') 4"
    by code_simp
  have p: "nat (lastIndexOf (js ''1234.5.6'') (js ''.'')) = 6"
    by code_simp
  have parts: "take 6 (js ''1234.5.6'') = js ''1234.5''" "drop 6 (js ''1234.5.6'') = js ''.6''"
    by code_simp+
  have g: "js ''$ '' @ grouped (js '','') (js ''1234.5'') @ js ''.6'' = js ''$ 123,4.5.6''"
    by code_simp
  have "currencyFormat (js ''1234.5.6'') (js ''$ '') (js '','') (js ''.'')
        = js ''$ '' @ grouped (js '','') (js ''1234.5'') @ js ''.6''"
    using C2_fraction_verbatim [OF js_comma_nonempty dot occ, of "js ''$ ''"]
    unfolding Let_def p parts by blast
  then show ?thesis
    using dot occ p parts g js_comma_nonempty by simp
qed

subsection \<open>C3: what the default pattern strips\<close>

text \<open>
  C3 says that without a pattern argument every character that is not an ASCII digit
  and not a period is removed.  The class of the default pattern \<open>/[^\d|^\.]+/g\<close> also
  lists \<open>|\<close> and \<open>^\<close>, so these two characters are left in place: the input \<open>1|2^3\<close>
  comes back unchanged, where C3 (and the function's own description of its result) gives
  \<open>123\<close>.
\<close>

theorem C3_bar_and_caret_survive:
  "currencyUnformat (js ''1|2^3'') None = js ''1|2^3''
   \<and> filter (\<lambda>c. is_ascii_digit c \<or> is_period c) (js ''1|2^3'') = js ''123''
   \<and> currencyUnformat (js ''1|2^3'') None
       \<noteq> filter (\<lambda>c. is_ascii_digit c \<or> is_period c) (js ''1|2^3'')"
  by code_simp

subsection \<open>C4: round trip with the default separators\<close>

text \<open>
  C4.  For every string \<open>s\<close> of ASCII digits and at most one period,
  \<open>unformat(format(s, "$ ", ",", "."))\<close> with the default pattern is \<open>s\<close>.
\<close>

theorem C4_round_trip:
  assumes "\<forall>c\<in>set s. is_ascii_digit c \<or> is_period c"
    and "length (filter is_period s) \<le> 1"
  shows "currencyUnformat (currencyFormat s (js ''$ '') (js '','') (js ''.'')) None = s"
proof -
  have all: "\<forall>c\<in>set s. kept c"
    using assms(1) by (auto simp: kept_def is_period_def)
  have "filter kept (currencyFormat s (js ''$ '') (js '','') (js ''.''))
        = filter kept (integer_part s (js ''.'')) @ filter kept (fractional_part s (js ''.''))"
    by (simp add: currencyFormat_parts [OF js_comma_nonempty] kept_dollar_space_comma
          grouped_def filter_weave)
  also have "\<dots> = filter kept s"
    by (simp add: parts_append flip: filter_append)
  also have "\<dots> = s"
    using all by simp
  finally show ?thesis
    by (simp add: currencyUnformat_default)
qed

theorem C4_round_trip_witness:
  "list_all (\<lambda>c. is_ascii_digit c \<or> is_period c) (js ''123456.78'')
   \<and> length (filter is_period (js ''123456.78'')) \<le> 1
   \<and> currencyFormat (js ''123456.78'') (js ''$ '') (js '','') (js ''.'') = js ''$ 123,456.78''
   \<and> currencyUnformat (js ''$ 123,456.78'') None = js ''123456.78''"
proof -
  have h1: "\<forall>c\<in>set (js ''123456.78''). is_ascii_digit c \<or> is_period c"
    by (simp add: js_def is_ascii_digit_def is_period_def)
  have h2: "length (filter is_period (js ''123456.78'')) \<le> 1"
    by (simp add: js_def is_period_def)
  have f: "currencyFormat (js ''123456.78'') (js ''$ '') (js '','') (js ''.'') = js ''$ 123,456.78''"
    by code_simp
  have h1': "list_all (\<lambda>c. is_ascii_digit c \<or> is_period c) (js ''123456.78'')"
    using h1 by (simp only: list_all_iff)
  show ?thesis
    using C4_round_trip [OF h1 h2] h1' h2 f by simp
qed

subsection \<open>C5: the empty group separator\<close>

text \<open>
  C5.  With the empty string as group separator the result is the symbol followed by
  the unmodified input, for every input, symbol and decimal separator.
\<close>

theorem C5_empty_group_separator:
  "currencyFormat this symbol [] decimalSeparator = symbol @ this"
  by (simp add: currencyFormat_def)

theorem C5_empty_group_separator_witness:
  "currencyFormat (js ''1234567,89'') (js ''EUR '') (js '''') (js '','') = js ''EUR 1234567,89''"
  using C5_empty_group_separator [of "js ''1234567,89''" "js ''EUR ''" "js '',''"]
  by (simp add: js_def)

subsection \<open>C6: no decimal separator in the input\<close>

text \<open>
  C6.  For every input in which the decimal separator does not occur (group separator
  non-empty), the fractional part is empty, the integer part is the whole input, and the
  output is the symbol followed by the grouped input; and
  \<open>format("1234567", "$", ",", ".")\<close> is \<open>"$1,234,567"\<close>.
\<close>

theorem C6_no_decimal_separator:
  assumes "groupSeparator \<noteq> []" and "\<forall>k. \<not> occurs_at decimalSeparator this k"
  shows "fractional_part this decimalSeparator = []
         \<and> integer_part this decimalSeparator = this
         \<and> currencyFormat this symbol groupSeparator decimalSeparator
             = symbol @ grouped groupSeparator this
         \<and> currencyFormat (js ''1234567'') (js ''$'') (js '','') (js ''.'') = js ''$1,234,567''"
proof -
  have "currencyFormat (js ''1234567'') (js ''$'') (js '','') (js ''.'') = js ''$1,234,567''"
    by code_simp
  then show ?thesis
    using parts_absent [OF assms(2)] by (simp add: currencyFormat_parts [OF assms(1)])
qed

theorem C6_no_decimal_separator_witness:
  "js '','' \<noteq> [] \<and> (\<forall>k. \<not> occurs_at (js ''.'') (js ''1234567'') k)
   \<and> integer_part (js ''1234567'') (js ''.'') = js ''1234567''
   \<and> fractional_part (js ''1234567'') (js ''.'') = []
   \<and> currencyFormat (js ''1234567'') (js ''$'') (js '','') (js ''.'')
       = js ''$'' @ grouped (js '','') (js ''1234567'')
   \<and> grouped (js '','') (js ''1234567'') = js ''1,234,567''"
proof -
  have "lastIndexOf (js ''1234567'') (js ''.'') = - 1"
    by code_simp
  then have absent: "\<forall>k. \<not> occurs_at (js ''.'') (js ''1234567'') k"
    by (simp add: lastIndexOf_absent)
  have g: "grouped (js '','') (js ''1234567'') = js ''1,234,567''"
    by code_simp
  show ?thesis
    using C6_no_decimal_separator [OF js_comma_nonempty absent, of "js ''$''"]
      js_comma_nonempty absent g
    by simp
qed

subsection \<open>C7: grouping depends on positions only\<close>

text \<open>
  C7.  For two inputs whose integer parts have the same length, and the same symbol,
  non-empty group separator and decimal separator, the outputs carry the group separator
  at the same list of positions of their integer parts, whatever the characters are: each
  output is the symbol, its integer part with the separator woven in at that one list
  of positions, and its fractional part.  The list is computed from the length alone.
\<close>

theorem C7_positional:
  assumes "groupSeparator \<noteq> []"
    and "length (integer_part a decimalSeparator) = length (integer_part b decimalSeparator)"
  shows
    "let ps = separator_positions (length (integer_part a decimalSeparator))
     in currencyFormat a symbol groupSeparator decimalSeparator
          = symbol @ weave groupSeparator (integer_part a decimalSeparator) ps
              @ fractional_part a decimalSeparator
        \<and> currencyFormat b symbol groupSeparator decimalSeparator
          = symbol @ weave groupSeparator (integer_part b decimalSeparator) ps
              @ fractional_part b decimalSeparator"
  unfolding Let_def assms(2) [symmetric]
  by (simp add: currencyFormat_parts [OF assms(1)] grouped_def assms(2))

theorem C7_positional_witness:
  "js '','' \<noteq> []
   \<and> length (integer_part (js ''1234567.5'') (js ''.''))
       = length (integer_part (js ''ab-d e+.x'') (js ''.''))
   \<and> separator_positions (length (integer_part (js ''1234567.5'') (js ''.''))) = [1, 4]
   \<and> currencyFormat (js ''1234567.5'') (js ''$'') (js '','') (js ''.'')
       = js ''$'' @ weave (js '','') (js ''1234567'') [1, 4] @ js ''.5''
   \<and> currencyFormat (js ''ab-d e+.x'') (js ''$'') (js '','') (js ''.'')
       = js ''$'' @ weave (js '','') (js ''ab-d e+'') [1, 4] @ js ''.x''
   \<and> currencyFormat (js ''1234567.5'') (js ''$'') (js '','') (js ''.'') = js ''$1,234,567.5''
   \<and> currencyFormat (js ''ab-d e+.x'') (js ''$'') (js '','') (js ''.'') = js ''$a,b-d, e+.x''"
proof -
  have ipa: "integer_part (js ''1234567.5'') (js ''.'') = js ''1234567''"
    and ipb: "integer_part (js ''ab-d e+.x'') (js ''.'') = js ''ab-d e+''"
    and fpa: "fractional_part (js ''1234567.5'') (js ''.'') = js ''.5''"
    and fpb: "fractional_part (js ''ab-d e+.x'') (js ''.'') = js ''.x''"
    by code_simp+
  have len: "length (js ''1234567'') = 7" "length (js ''ab-d e+'') = 7"
    by (simp_all add: js_def)
  have same: "length (integer_part (js ''1234567.5'') (js ''.''))
              = length (integer_part (js ''ab-d e+.x'') (js ''.''))"
    by (simp add: ipa ipb len)
  have ps: "separator_positions 7 = [1, 4]"
    by code_simp
  have wa: "js ''$'' @ weave (js '','') (js ''1234567'') [1, 4] @ js ''.5'' = js ''$1,234,567.5''"
    and wb: "js ''$'' @ weave (js '','') (js ''ab-d e+'') [1, 4] @ js ''.x'' = js ''$a,b-d, e+.x''"
    by code_simp+
  have both: "currencyFormat (js ''1234567.5'') (js ''$'') (js '','') (js ''.'')
          = js ''$'' @ weave (js '','') (js ''1234567'') [1, 4] @ js ''.5''
        \<and> currencyFormat (js ''ab-d e+.x'') (js ''$'') (js '','') (js ''.'')
          = js ''$'' @ weave (js '','') (js ''ab-d e+'') [1, 4] @ js ''.x''"
    using C7_positional [OF js_comma_nonempty same, of "js ''$''"]
    unfolding Let_def ipa ipb fpa fpb len ps .
  have pos: "separator_positions (length (integer_part (js ''1234567.5'') (js ''.''))) = [1, 4]"
    unfolding ipa len ps ..
  show ?thesis
    using both same pos js_comma_nonempty wa wb by simp
qed

subsection \<open>C8: the empty input\<close>

text \<open>
  C8.  For every symbol, group separator and decimal separator, the empty input gives
  exactly the symbol.
\<close>

theorem C8_empty_input:
  "currencyFormat [] symbol groupSeparator decimalSeparator = symbol"
proof (cases "groupSeparator = []")
  case True
  then show ?thesis by (simp add: currencyFormat_def)
next
  case False
  have "integer_part [] decimalSeparator @ fractional_part [] decimalSeparator = []"
    by (rule parts_append)
  then have "integer_part [] decimalSeparator = []" "fractional_part [] decimalSeparator = []"
    by simp_all
  then show ?thesis
    by (simp add: currencyFormat_parts [OF False] grouped_empty)
qed

theorem C8_empty_input_witness:
  "currencyFormat (js '''') (js ''$ '') (js '','') (js ''.'') = js ''$ ''
   \<and> currencyFormat (js '''') (js ''$ '') (js '''') (js ''.'') = js ''$ ''
   \<and> currencyFormat (js '''') (js ''$ '') (js '','') (js '''') = js ''$ ''"
  using C8_empty_input [of "js ''$ ''" "js '',''" "js ''.''"]
    C8_empty_input [of "js ''$ ''" "js ''''" "js ''.''"]
    C8_empty_input [of "js ''$ ''" "js '',''" "js ''''"]
  by (simp add: js_def)

subsection \<open>C9: the empty decimal separator\<close>

text \<open>
  C9.  For every input and non-empty group separator, with the empty string as decimal
  separator \<open>lastIndexOf\<close> gives the length of the input, the fractional part is empty and
  the integer part is the whole input; the output is the one obtained with any decimal
  separator that does not occur in the input, the symbol followed by the grouped input.
\<close>

theorem C9_empty_decimal_separator:
  assumes "groupSeparator \<noteq> []" and "\<forall>k. \<not> occurs_at decimalSeparator this k"
  shows "lastIndexOf this [] = int (length this)
         \<and> fractional_part this [] = []
         \<and> integer_part this [] = this
         \<and> currencyFormat this symbol groupSeparator []
             = currencyFormat this symbol groupSeparator decimalSeparator
         \<and> currencyFormat this symbol groupSeparator [] = symbol @ grouped groupSeparator this"
proof -
  have pos: "lastIndexOf this [] = int (length this)"
    by (rule lastIndexOf_empty)
  from parts_present [OF pos] have parts: "integer_part this [] = this" "fractional_part this [] = []"
    by simp_all
  show ?thesis
    using parts_absent [OF assms(2)]
    by (simp add: pos parts currencyFormat_parts [OF assms(1)])
qed

theorem C9_empty_decimal_separator_witness:
  "js '','' \<noteq> [] \<and> (\<forall>k. \<not> occurs_at (js ''.'') (js ''1234567'') k)
   \<and> lastIndexOf (js ''1234567'') (js '''') = 7
   \<and> currencyFormat (js ''1234567'') (js ''$'') (js '','') (js '''')
       = currencyFormat (js ''1234567'') (js ''$'') (js '','') (js ''.'')
   \<and> currencyFormat (js ''1234567'') (js ''$'') (js '','') (js '''') = js ''$1,234,567''"
proof -
  have "lastIndexOf (js ''1234567'') (js ''.'') = - 1"
    by code_simp
  then have absent: "\<forall>k. \<not> occurs_at (js ''.'') (js ''1234567'') k"
    by (simp add: lastIndexOf_absent)
  have len: "int (length (js ''1234567'')) = 7"
    by (simp add: js_def)
  have g: "js ''$'' @ grouped (js '','') (js ''1234567'') = js ''$1,234,567''"
    by code_simp
  have nil: "js '''' = []"
    by (simp add: js_def)
  have "lastIndexOf (js ''1234567'') [] = 7
        \<and> currencyFormat (js ''1234567'') (js ''$'') (js '','') []
            = currencyFormat (js ''1234567'') (js ''$'') (js '','') (js ''.'')
        \<and> currencyFormat (js ''1234567'') (js ''$'') (js '','') [] = js ''$1,234,567''"
    using C9_empty_decimal_separator [OF js_comma_nonempty absent, of "js ''$''"]
    unfolding len g by blast
  then show ?thesis
    unfolding nil using js_comma_nonempty absent by blast
qed

subsection \<open>C10: unformatting twice\<close>

text \<open>
  C10.  With the default pattern, unformatting the result of unformatting changes
  nothing: \<open>unformat(unformat(s)) = unformat(s)\<close> for every string \<open>s\<close>.
\<close>

theorem C10_unformat_idempotent:
  "currencyUnformat (currencyUnformat s None) None = currencyUnformat s None"
  by (simp add: currencyUnformat_default)

theorem C10_unformat_idempotent_witness:
  "currencyUnformat (js ''Total: $ 12,345,678.90 (annual)'') None = js ''12345678.90''
   \<and> currencyUnformat (js ''12345678.90'') None = js ''12345678.90''"
proof -
  have u: "currencyUnformat (js ''Total: $ 12,345,678.90 (annual)'') None = js ''12345678.90''"
    by code_simp
  show ?thesis
    using C10_unformat_idempotent [of "js ''Total: $ 12,345,678.90 (annual)''"]
    unfolding u by simp
qed

end
